theory Spec2Isabelle
  imports Main "HOL-Library.Sublist" "HOL-Library.Multiset"
begin

section \<open>Roman numeral addition by string rewriting (roman\_adding.py)\<close>

text \<open>
  The module adds roman numbers using string operations only. Python strings are
  modelled as \<^typ>\<open>string\<close>, the exception raised by \<open>check_roman\<close> and by
  \<open>str.index\<close> as a value of the type \<open>error\<close>, and the two lookup tables as
  association lists in the order in which the module inserts their entries (the order in
  which \<open>.items()\<close> yields them: \<open>ADDITIVE_MAP\<close> is an \<open>OrderedDict\<close>, and
  \<open>REDUCTION_MAP\<close> a plain \<open>dict\<close>, which keeps insertion order in Python 3.7 and
  later). A token is a string; \<open>x in ROMAN_DIGITS\<close> for a character and
  \<open>sub in number\<close> for a pattern are substring tests, here membership in the set of
  characters and \<^const>\<open>sublist\<close>. The command line wrapper \<open>main\<close> is left out.
\<close>

subsection \<open>Constants of the module\<close>

definition ROMAN_DIGITS :: string where
  "ROMAN_DIGITS = ''IVXLCDM''"

definition ADDITIVE_MAP :: "(string \<times> string) list" where
  "ADDITIVE_MAP =
     [(''CM'', ''DCCCC''),
      (''CD'', ''CCCC''),
      (''XC'', ''LXXXX''),
      (''XL'', ''XXXX''),
      (''IX'', ''VIIII''),
      (''IV'', ''IIII'')]"

definition REDUCTION_MAP :: "(string \<times> string) list" where
  "REDUCTION_MAP =
     [(''IIIII'', ''V''),
      (''VIV'', ''IX''),
      (''VV'', ''X''),
      (''XXXXX'', ''L''),
      (''LXL'', ''XC''),
      (''LL'', ''C''),
      (''CCCCC'', ''D''),
      (''DCD'', ''CM''),
      (''DD'', ''M'')]"

subsection \<open>The string operations of Python used by the module\<close>

text \<open>
  \<open>s.replace(old, new)\<close> scans \<open>s\<close> from the left and replaces every
  non-overlapping occurrence of \<open>old\<close>; after a replacement the scan goes on behind
  the replaced occurrence, so the text just written is never matched again. For an empty
  \<open>old\<close> Python puts \<open>new\<close> before every character and at the end.
\<close>

function replace_scan :: "string \<Rightarrow> string \<Rightarrow> string \<Rightarrow> string" where
  "replace_scan old new [] = []"
| "replace_scan old new (c # s) =
     (if old \<noteq> [] \<and> prefix old (c # s)
      then new @ replace_scan old new (drop (length old) (c # s))
      else c # replace_scan old new s)"
  by pat_completeness auto
termination
  by (relation "measure (\<lambda>(old, new, s). length s)") auto

definition replace :: "string \<Rightarrow> string \<Rightarrow> string \<Rightarrow> string" where
  "replace old new s =
     (if old = [] then new @ concat (map (\<lambda>c. c # new) s) else replace_scan old new s)"

text \<open>\<open>s.index(x)\<close> for a character \<open>x\<close>: the first position of \<open>x\<close>, or a
  \<open>ValueError\<close> (here \<open>None\<close>) when \<open>x\<close> does not occur.\<close>

fun index :: "string \<Rightarrow> char \<Rightarrow> nat option" where
  "index [] x = None"
| "index (c # s) x = (if c = x then Some 0 else map_option Suc (index s x))"

subsection \<open>Errors\<close>

text \<open>Both are \<open>ValueError\<close> in Python: the one \<open>check_roman\<close> raises, whose message
  holds the rejected token, and the one \<open>str.index\<close> raises.\<close>

datatype error = InvalidNumeral string | SubstringNotFound

subsection \<open>The functions of the module\<close>

definition check_roman :: "string \<Rightarrow> error + unit" where
  "check_roman s =
     (if \<not> list_all (\<lambda>x. x \<in> set ROMAN_DIGITS) s then Inl (InvalidNumeral s) else Inr ())"

definition replace_subtractive :: "string \<Rightarrow> string" where
  "replace_subtractive number =
     foldl (\<lambda>number (sub, add). if sublist sub number then replace sub add number else number)
       number ADDITIVE_MAP"

definition replace_additive :: "string \<Rightarrow> string" where
  "replace_additive number =
     foldl (\<lambda>number (key, val). if sublist val number then replace val key number else number)
       number ADDITIVE_MAP"

text \<open>One run of the \<open>for\<close> loop inside \<open>fold_digits\<close>.\<close>

definition fold_pass :: "string \<Rightarrow> string" where
  "fold_pass number =
     foldl (\<lambda>number (digits, reduction).
              if sublist digits number then replace digits reduction number else number)
       number REDUCTION_MAP"

subsection \<open>Facts about \<open>replace\<close> needed for the termination of the fold loop\<close>

lemma length_replace_scan_le:
  "length new \<le> length old \<Longrightarrow> length (replace_scan old new s) \<le> length s"
proof (induction old new s rule: replace_scan.induct)
  case (1 old new)
  then show ?case by simp
next
  case (2 old new c s)
  show ?case
  proof (cases "old \<noteq> [] \<and> prefix old (c # s)")
    case True
    then have "length old \<le> length (c # s)" using prefix_length_le by blast
    moreover have "length (replace_scan old new (drop (length old) (c # s)))
        \<le> length (drop (length old) (c # s))"
      using 2 True by blast
    ultimately show ?thesis using True 2(3) by simp
  next
    case False
    then show ?thesis using 2 by auto
  qed
qed

lemma replace_scan_absent:
  "\<not> sublist old s \<Longrightarrow> replace_scan old new s = s"
proof (induction s)
  case Nil
  then show ?case by simp
next
  case (Cons c s)
  then show ?case by (simp add: sublist_Cons_right)
qed

lemma length_replace_scan_less:
  "old \<noteq> [] \<Longrightarrow> length new < length old \<Longrightarrow> sublist old s \<Longrightarrow>
   length (replace_scan old new s) < length s"
proof (induction s)
  case Nil
  then show ?case by simp
next
  case (Cons c s)
  show ?case
  proof (cases "prefix old (c # s)")
    case True
    then have "length old \<le> length (c # s)" using prefix_length_le by blast
    moreover have "length (replace_scan old new (drop (length old) (c # s)))
        \<le> length (drop (length old) (c # s))"
      using Cons.prems(2) by (intro length_replace_scan_le) simp
    ultimately show ?thesis using True Cons.prems by simp
  next
    case False
    then have "sublist old s" using Cons.prems(3) by (simp add: sublist_Cons_right)
    then show ?thesis using False Cons by simp
  qed
qed

lemma set_replace_scan: "set (replace_scan old new s) \<subseteq> set s \<union> set new"
proof (induction old new s rule: replace_scan.induct)
  case (1 old new)
  then show ?case by simp
next
  case (2 old new c s)
  have "set (drop (length old) (c # s)) \<subseteq> set (c # s)" by (rule set_drop_subset)
  then show ?case using 2 by (auto split: if_splits)
qed

lemma replace_absent: "\<not> sublist old s \<Longrightarrow> replace old new s = s"
  by (auto simp: replace_def replace_scan_absent)

text \<open>The three table-driven loops have the same shape: for each entry in turn, if the
  pattern occurs, replace all its occurrences.\<close>

definition rewrite_step :: "string \<Rightarrow> string \<times> string \<Rightarrow> string" where
  "rewrite_step number e =
     (if sublist (fst e) number then replace (fst e) (snd e) number else number)"

definition shrinking :: "(string \<times> string) list \<Rightarrow> bool" where
  "shrinking m = list_all (\<lambda>e. fst e \<noteq> [] \<and> length (snd e) < length (fst e)) m"

lemma rewrite_step_cases:
  assumes "fst e \<noteq> []" "length (snd e) < length (fst e)"
  shows "(\<not> sublist (fst e) s \<and> rewrite_step s e = s) \<or>
         (sublist (fst e) s \<and> length (rewrite_step s e) < length s)"
  using assms by (auto simp: rewrite_step_def replace_def length_replace_scan_less)

lemma foldl_rewrite_length_le:
  "shrinking m \<Longrightarrow> length (foldl rewrite_step s m) \<le> length s"
proof (induction m arbitrary: s)
  case Nil
  then show ?case by simp
next
  case (Cons e m)
  then have "length (foldl rewrite_step (rewrite_step s e) m) \<le> length (rewrite_step s e)"
    by (simp add: shrinking_def)
  moreover have "length (rewrite_step s e) \<le> length s"
    using rewrite_step_cases [of e s] Cons.prems by (auto simp: shrinking_def)
  ultimately show ?case by simp
qed

lemma foldl_rewrite_cases:
  "shrinking m \<Longrightarrow>
   (list_all (\<lambda>e. \<not> sublist (fst e) s) m \<and> foldl rewrite_step s m = s) \<or>
   length (foldl rewrite_step s m) < length s"
proof (induction m arbitrary: s)
  case Nil
  then show ?case by simp
next
  case (Cons e m)
  have sh: "shrinking m" and e: "fst e \<noteq> []" "length (snd e) < length (fst e)"
    using Cons.prems by (simp_all add: shrinking_def)
  show ?case
  proof (cases "sublist (fst e) s")
    case True
    then have "length (rewrite_step s e) < length s"
      using rewrite_step_cases [OF e, of s] by simp
    moreover have "length (foldl rewrite_step (rewrite_step s e) m) \<le> length (rewrite_step s e)"
      using sh by (rule foldl_rewrite_length_le)
    ultimately show ?thesis by simp
  next
    case False
    then have "rewrite_step s e = s" by (simp add: rewrite_step_def)
    then show ?thesis using Cons.IH [OF sh, of s] False by simp
  qed
qed

lemma fold_pass_rewrite: "fold_pass number = foldl rewrite_step number REDUCTION_MAP"
  by (simp add: fold_pass_def rewrite_step_def [abs_def] case_prod_unfold)

lemma shrinking_REDUCTION_MAP: "shrinking REDUCTION_MAP"
  by (simp add: shrinking_def REDUCTION_MAP_def)

lemma fold_pass_cases:
  "(list_all (\<lambda>e. \<not> sublist (fst e) s) REDUCTION_MAP \<and> fold_pass s = s) \<or>
   length (fold_pass s) < length s"
  unfolding fold_pass_rewrite by (rule foldl_rewrite_cases [OF shrinking_REDUCTION_MAP])

subsection \<open>The fold loop and the addition\<close>

function fold_digits :: "string \<Rightarrow> string" where
  "fold_digits number =
     (let number_before_fold = number;
          number = fold_pass number
      in if number_before_fold = number then number else fold_digits number)"
  by pat_completeness auto
termination
proof (relation "measure length")
  show "wf (measure length)" by simp
next
  fix number number_before_fold x
  assume "number_before_fold = number" "x = fold_pass number" "number_before_fold \<noteq> x"
  then show "(x, number) \<in> measure length"
    using fold_pass_cases [of number] by auto
qed

declare fold_digits.simps [simp del]

text \<open>The first loop of \<open>add\<close>: every token is checked, in order, and the first
  failure ends the call.\<close>

fun check_all :: "string list \<Rightarrow> error + unit" where
  "check_all [] = Inr ()"
| "check_all (n # numbers) =
     (case check_roman n of Inl e \<Rightarrow> Inl e | Inr _ \<Rightarrow> check_all numbers)"

text \<open>\<open>sorted(additive_sum, key=lambda x: ROMAN_DIGITS.index(x), reverse=True)\<close>: the
  keys of all characters are computed first (any of them may raise), then the characters
  are sorted by descending key. Python keeps the sort stable under \<open>reverse=True\<close>,
  which is a stable ascending sort of the reversed list, reversed.\<close>

definition sorted_by_index_reversed :: "string \<Rightarrow> error + string" where
  "sorted_by_index_reversed additive_sum =
     (case those (map (\<lambda>x. map_option (\<lambda>k. (k, x)) (index ROMAN_DIGITS x)) additive_sum) of
        None \<Rightarrow> Inl SubstringNotFound
      | Some keyed \<Rightarrow> Inr (map snd (rev (sort_key fst (rev keyed)))))"

definition add :: "string list \<Rightarrow> error + string" where
  "add numbers =
     (case check_all numbers of
        Inl e \<Rightarrow> Inl e
      | Inr _ \<Rightarrow>
          (let additive_sum = concat (map replace_subtractive numbers)
           in case sorted_by_index_reversed additive_sum of
                Inl e \<Rightarrow> Inl e
              | Inr sorted_sum \<Rightarrow>
                  (let reduced_sum = fold_digits sorted_sum
                   in Inr (replace_additive reduced_sum))))"

subsection \<open>The fold loop reaches a fixpoint\<close>

lemma fold_digits_unfold:
  "fold_digits s = (if fold_pass s = s then s else fold_digits (fold_pass s))"
  by (subst fold_digits.simps) (auto simp: Let_def)

lemma fold_digits_fixed: "fold_pass (fold_digits s) = fold_digits s"
proof (induction s rule: fold_digits.induct)
  case (1 number)
  show ?case
  proof (cases "fold_pass number = number")
    case True
    then show ?thesis by (subst (1 2) fold_digits_unfold) simp
  next
    case False
    then have "fold_pass (fold_digits (fold_pass number)) = fold_digits (fold_pass number)"
      using 1 by auto
    then show ?thesis using False by (subst (1 2) fold_digits_unfold) simp
  qed
qed

lemma fold_digits_passes: "\<exists>k\<le>length s. fold_digits s = (fold_pass ^^ k) s"
proof (induction s rule: fold_digits.induct)
  case (1 number)
  show ?case
  proof (cases "fold_pass number = number")
    case True
    then have "fold_digits number = (fold_pass ^^ 0) number"
      by (subst fold_digits_unfold) simp
    then show ?thesis by blast
  next
    case False
    then obtain k where k: "k \<le> length (fold_pass number)"
        "fold_digits (fold_pass number) = (fold_pass ^^ k) (fold_pass number)"
      using 1 by auto
    have "length (fold_pass number) < length number"
      using fold_pass_cases [of number] False by auto
    then have "Suc k \<le> length number" using k(1) by simp
    moreover have "fold_digits number = (fold_pass ^^ Suc k) number"
      using False k(2) by (subst fold_digits_unfold) (simp add: funpow_swap1)
    ultimately show ?thesis by blast
  qed
qed

subsection \<open>Validation and the alphabet\<close>

lemma set_ROMAN_DIGITS:
  "set ROMAN_DIGITS = {CHR ''I'', CHR ''V'', CHR ''X'', CHR ''L'', CHR ''C'', CHR ''D'', CHR ''M''}"
  by (simp add: ROMAN_DIGITS_def)

lemma check_roman_Inr: "check_roman s = Inr u \<longleftrightarrow> set s \<subseteq> set ROMAN_DIGITS"
  by (auto simp: check_roman_def list_all_iff)

lemma check_roman_Inl:
  "check_roman s = Inl e \<longleftrightarrow> \<not> set s \<subseteq> set ROMAN_DIGITS \<and> e = InvalidNumeral s"
  by (auto simp: check_roman_def list_all_iff)

lemma check_all_Inr: "check_all numbers = Inr u \<longleftrightarrow> (\<forall>n\<in>set numbers. set n \<subseteq> set ROMAN_DIGITS)"
proof (induction numbers)
  case Nil
  then show ?case by simp
next
  case (Cons n numbers)
  have "check_roman n = (if set n \<subseteq> set ROMAN_DIGITS then Inr () else Inl (InvalidNumeral n))"
    by (auto simp: check_roman_def list_all_iff)
  then show ?case using Cons by auto
qed

lemma check_all_Inl:
  "check_all numbers = Inl e \<longleftrightarrow>
     (\<exists>pre t post. numbers = pre @ t # post \<and> (\<forall>n\<in>set pre. set n \<subseteq> set ROMAN_DIGITS) \<and>
        \<not> set t \<subseteq> set ROMAN_DIGITS \<and> e = InvalidNumeral t)"
proof (induction numbers)
  case Nil
  then show ?case by simp
next
  case (Cons n numbers)
  show ?case
  proof (cases "set n \<subseteq> set ROMAN_DIGITS")
    case True
    then have ok: "check_roman n = Inr ()" by (simp add: check_roman_Inr)
    have "(\<exists>pre t post. n # numbers = pre @ t # post \<and> (\<forall>n\<in>set pre. set n \<subseteq> set ROMAN_DIGITS) \<and>
        \<not> set t \<subseteq> set ROMAN_DIGITS \<and> e = InvalidNumeral t) \<longleftrightarrow>
       (\<exists>pre t post. numbers = pre @ t # post \<and> (\<forall>n\<in>set pre. set n \<subseteq> set ROMAN_DIGITS) \<and>
        \<not> set t \<subseteq> set ROMAN_DIGITS \<and> e = InvalidNumeral t)" (is "?L \<longleftrightarrow> ?R")
    proof
      assume ?L
      then obtain pre t post where h: "n # numbers = pre @ t # post"
        "\<forall>n\<in>set pre. set n \<subseteq> set ROMAN_DIGITS" "\<not> set t \<subseteq> set ROMAN_DIGITS" "e = InvalidNumeral t"
        by blast
      from h(1,3) True obtain pre' where "pre = n # pre'"
        by (cases pre) auto
      with h show ?R by auto
    next
      assume ?R
      then obtain pre t post where h: "numbers = pre @ t # post"
        "\<forall>n\<in>set pre. set n \<subseteq> set ROMAN_DIGITS" "\<not> set t \<subseteq> set ROMAN_DIGITS" "e = InvalidNumeral t"
        by blast
      then have "n # numbers = (n # pre) @ t # post" "\<forall>m\<in>set (n # pre). set m \<subseteq> set ROMAN_DIGITS"
        using True by auto
      with h(3,4) show ?L by blast
    qed
    then show ?thesis using Cons.IH ok by simp
  next
    case False
    then have bad: "check_roman n = Inl (InvalidNumeral n)" by (simp add: check_roman_Inl)
    have "(\<exists>pre t post. n # numbers = pre @ t # post \<and> (\<forall>n\<in>set pre. set n \<subseteq> set ROMAN_DIGITS) \<and>
        \<not> set t \<subseteq> set ROMAN_DIGITS \<and> e = InvalidNumeral t) \<longleftrightarrow> e = InvalidNumeral n" (is "?L \<longleftrightarrow> ?R")
    proof
      assume ?L
      then obtain pre t post where h: "n # numbers = pre @ t # post"
        "\<forall>n\<in>set pre. set n \<subseteq> set ROMAN_DIGITS" "\<not> set t \<subseteq> set ROMAN_DIGITS" "e = InvalidNumeral t"
        by blast
      from h(1,2) False have "pre = []" by (cases pre) auto
      with h show ?R by simp
    next
      assume ?R
      then have "n # numbers = [] @ n # numbers \<and> (\<forall>m\<in>set []. set m \<subseteq> set ROMAN_DIGITS) \<and>
        \<not> set n \<subseteq> set ROMAN_DIGITS \<and> e = InvalidNumeral n" using False by simp
      then show ?L by blast
    qed
    then show ?thesis using bad by auto
  qed
qed

subsection \<open>The table loops stay inside the alphabet\<close>

lemma set_replace: "set (replace old new s) \<subseteq> set s \<union> set new"
  using set_replace_scan [of old new s] by (auto simp: replace_def)

lemma set_rewrite_step: "set (rewrite_step s e) \<subseteq> set s \<union> set (snd e)"
  using set_replace [of "fst e" "snd e" s] by (auto simp: rewrite_step_def)

lemma set_foldl_rewrite:
  "set s \<subseteq> A \<Longrightarrow> list_all (\<lambda>e. set (snd e) \<subseteq> A) m \<Longrightarrow> set (foldl rewrite_step s m) \<subseteq> A"
proof (induction m arbitrary: s)
  case Nil
  then show ?case by simp
next
  case (Cons e m)
  have "set (rewrite_step s e) \<subseteq> A"
    using set_rewrite_step [of s e] Cons.prems by auto
  then show ?case using Cons by simp
qed

lemma replace_subtractive_rewrite:
  "replace_subtractive number = foldl rewrite_step number ADDITIVE_MAP"
  by (simp add: replace_subtractive_def rewrite_step_def [abs_def] case_prod_unfold)

lemma replace_additive_rewrite:
  "replace_additive number = foldl rewrite_step number (map prod.swap ADDITIVE_MAP)"
  by (simp add: replace_additive_def rewrite_step_def [abs_def] case_prod_unfold foldl_map
      cong: if_cong)

lemma set_replace_subtractive:
  "set s \<subseteq> set ROMAN_DIGITS \<Longrightarrow> set (replace_subtractive s) \<subseteq> set ROMAN_DIGITS"
  unfolding replace_subtractive_rewrite
  by (erule set_foldl_rewrite) (simp add: ADDITIVE_MAP_def ROMAN_DIGITS_def)

lemma set_replace_additive:
  "set s \<subseteq> set ROMAN_DIGITS \<Longrightarrow> set (replace_additive s) \<subseteq> set ROMAN_DIGITS"
  unfolding replace_additive_rewrite
  by (erule set_foldl_rewrite) (simp add: ADDITIVE_MAP_def ROMAN_DIGITS_def)

lemma set_fold_pass:
  "set s \<subseteq> set ROMAN_DIGITS \<Longrightarrow> set (fold_pass s) \<subseteq> set ROMAN_DIGITS"
  unfolding fold_pass_rewrite
  by (erule set_foldl_rewrite) (simp add: REDUCTION_MAP_def ROMAN_DIGITS_def)

lemma set_fold_digits:
  "set s \<subseteq> set ROMAN_DIGITS \<Longrightarrow> set (fold_digits s) \<subseteq> set ROMAN_DIGITS"
proof (induction s rule: fold_digits.induct)
  case (1 number)
  show ?case
  proof (cases "fold_pass number = number")
    case True
    then show ?thesis using 1 by (subst fold_digits_unfold) simp
  next
    case False
    then have "set (fold_digits (fold_pass number)) \<subseteq> set ROMAN_DIGITS"
      using 1 set_fold_pass [of number] by auto
    then show ?thesis using False by (subst fold_digits_unfold) simp
  qed
qed

subsection \<open>The sort\<close>

lemma index_None: "index s x = None \<longleftrightarrow> x \<notin> set s"
  by (induction s) auto

definition rank :: "char \<Rightarrow> nat" where
  "rank x = the (index ROMAN_DIGITS x)"

lemma those_keys:
  "set s \<subseteq> set ROMAN_DIGITS \<Longrightarrow>
   those (map (\<lambda>x. map_option (\<lambda>k. (k, x)) (index ROMAN_DIGITS x)) s) = Some (map (\<lambda>x. (rank x, x)) s)"
proof (induction s)
  case Nil
  then show ?case by simp
next
  case (Cons c s)
  then have "index ROMAN_DIGITS c \<noteq> None" by (simp add: index_None)
  then show ?case using Cons by (auto simp: rank_def)
qed

lemma those_keys_None:
  "\<not> set s \<subseteq> set ROMAN_DIGITS \<Longrightarrow>
   those (map (\<lambda>x. map_option (\<lambda>k. (k, x)) (index ROMAN_DIGITS x)) s) = None"
proof (induction s)
  case Nil
  then show ?case by simp
next
  case (Cons c s)
  show ?case
  proof (cases "c \<in> set ROMAN_DIGITS")
    case True
    then have "\<not> set s \<subseteq> set ROMAN_DIGITS" using Cons.prems by simp
    then show ?thesis using Cons.IH by (simp split: option.splits)
  next
    case False
    then have "index ROMAN_DIGITS c = None" by (simp add: index_None)
    then show ?thesis by simp
  qed
qed

lemma insort_key_map:
  "insort_key f (g x) (map g xs) = map g (insort_key (\<lambda>y. f (g y)) x xs)"
  by (induction xs) auto

lemma sort_key_map: "sort_key f (map g xs) = map g (sort_key (\<lambda>y. f (g y)) xs)"
  by (induction xs) (auto simp: insort_key_map)

lemma sorted_by_index_reversed_Inr:
  assumes "set s \<subseteq> set ROMAN_DIGITS"
  shows "sorted_by_index_reversed s = Inr (rev (sort_key rank (rev s)))"
proof -
  have "sort_key fst (rev (map (\<lambda>x. (rank x, x)) s)) = map (\<lambda>x. (rank x, x)) (sort_key rank (rev s))"
    by (simp add: rev_map sort_key_map comp_def)
  then show ?thesis
    using those_keys [OF assms] by (simp add: sorted_by_index_reversed_def rev_map comp_def)
qed

lemma add_valid:
  assumes "\<forall>n\<in>set numbers. set n \<subseteq> set ROMAN_DIGITS"
  shows "add numbers = Inr (replace_additive (fold_digits
           (rev (sort_key rank (rev (concat (map replace_subtractive numbers)))))))"
proof -
  have "check_all numbers = Inr ()" using assms by (simp add: check_all_Inr)
  moreover have "set (concat (map replace_subtractive numbers)) \<subseteq> set ROMAN_DIGITS"
    using assms set_replace_subtractive by auto
  ultimately show ?thesis
    by (simp add: add_def sorted_by_index_reversed_Inr)
qed

lemma add_Inl: "add numbers = Inl e \<longleftrightarrow> check_all numbers = Inl e"
proof (cases "check_all numbers")
  case (Inl a)
  then show ?thesis by (simp add: add_def)
next
  case (Inr b)
  then have "\<forall>n\<in>set numbers. set n \<subseteq> set ROMAN_DIGITS" by (simp add: check_all_Inr)
  then show ?thesis using Inr add_valid by simp
qed

subsection \<open>Tokens the tables leave alone\<close>

lemma foldl_rewrite_absent:
  "list_all (\<lambda>e. \<not> sublist (fst e) s) m \<Longrightarrow> foldl rewrite_step s m = s"
  by (induction m) (auto simp: rewrite_step_def)

lemma sublist_pair_replicate: "a \<noteq> b \<Longrightarrow> \<not> sublist [a, b] (replicate n c)"
proof
  assume "a \<noteq> b" "sublist [a, b] (replicate n c)"
  then have "set [a, b] \<subseteq> set (replicate n c)" using set_mono_sublist by blast
  then show False using \<open>a \<noteq> b\<close> by (auto split: if_splits)
qed

lemma check_all_empty_token: "check_all (xs @ [] # ys) = check_all (xs @ ys)"
proof (induction xs)
  case Nil
  then show ?case by (simp add: check_roman_def)
next
  case (Cons x xs)
  then show ?case by (simp split: sum.splits)
qed

lemma replace_subtractive_empty: "replace_subtractive [] = []"
  by (simp add: replace_subtractive_def ADDITIVE_MAP_def)

section \<open>What the pipeline computes\<close>

text \<open>
  The rest of the development follows a sum through the pipeline of \<open>add\<close>: the sorted
  concatenation is a sequence of runs \<open>M\<dots>D\<dots>C\<dots>L\<dots>X\<dots>V\<dots>I\<dots>\<close>, one pass of the
  fold loop carries every run into the next higher symbol, which leaves the digits of the
  sum, and \<open>replace_additive\<close> turns these digits into the tidy numeral of the sum.
  The definitions from here on are not part of the module; they state what it computes.
\<close>

subsection \<open>The sorted sum is a sequence of runs, highest symbol first\<close>

definition additive :: "nat \<Rightarrow> nat \<Rightarrow> nat \<Rightarrow> nat \<Rightarrow> nat \<Rightarrow> nat \<Rightarrow> nat \<Rightarrow> string" where
  "additive m d c l x v i =
     replicate m CHR ''M'' @ replicate d CHR ''D'' @ replicate c CHR ''C'' @
     replicate l CHR ''L'' @ replicate x CHR ''X'' @ replicate v CHR ''V'' @
     replicate i CHR ''I''"

text \<open>The number a sequence of symbols stands for when it is read additively, with the
  weights the docstring of the module gives.\<close>

fun weight :: "char \<Rightarrow> nat" where
  "weight ch =
     (if ch = CHR ''I'' then 1 else if ch = CHR ''V'' then 5 else if ch = CHR ''X'' then 10
      else if ch = CHR ''L'' then 50 else if ch = CHR ''C'' then 100
      else if ch = CHR ''D'' then 500 else if ch = CHR ''M'' then 1000 else 0)"

definition additive_value :: "string \<Rightarrow> nat" where
  "additive_value s = sum_list (map weight s)"

lemma rank_simps:
  "rank CHR ''I'' = 0" "rank CHR ''V'' = 1" "rank CHR ''X'' = 2" "rank CHR ''L'' = 3"
  "rank CHR ''C'' = 4" "rank CHR ''D'' = 5" "rank CHR ''M'' = 6"
  by (simp_all add: rank_def ROMAN_DIGITS_def)

lemma inj_on_rank: "inj_on rank (set ROMAN_DIGITS)"
  by (auto simp: inj_on_def set_ROMAN_DIGITS rank_simps)

lemma sorted_rev_additive: "sorted (map rank (rev (additive m d c l x v i)))"
  by (auto simp: additive_def sorted_append rank_simps)

lemma count_list_replicate: "count_list (replicate n a) b = (if a = b then n else 0)"
  by (induction n) auto

lemma count_list_additive:
  "count_list (additive m d c l x v i) ch =
     (if ch = CHR ''M'' then m else if ch = CHR ''D'' then d else if ch = CHR ''C'' then c
      else if ch = CHR ''L'' then l else if ch = CHR ''X'' then x else if ch = CHR ''V'' then v
      else if ch = CHR ''I'' then i else 0)"
  by (simp add: additive_def count_list_replicate)

definition runs :: "string \<Rightarrow> string" where
  "runs s = additive (count_list s CHR ''M'') (count_list s CHR ''D'') (count_list s CHR ''C'')
     (count_list s CHR ''L'') (count_list s CHR ''X'') (count_list s CHR ''V'')
     (count_list s CHR ''I'')"

lemma mset_runs:
  assumes "set s \<subseteq> set ROMAN_DIGITS"
  shows "mset (runs s) = mset s"
proof (rule multiset_eqI)
  fix ch
  show "count (mset (runs s)) ch = count (mset s) ch"
  proof (cases "ch \<in> set ROMAN_DIGITS")
    case True
    then show ?thesis
      by (auto simp: runs_def count_list_additive set_ROMAN_DIGITS count_mset)
  next
    case False
    then have "ch \<notin> set s" using assms by auto
    then have "count_list s ch = 0" by simp
    then show ?thesis using False
      by (simp add: runs_def count_list_additive set_ROMAN_DIGITS count_mset)
  qed
qed

lemma sort_runs:
  assumes "set s \<subseteq> set ROMAN_DIGITS"
  shows "rev (sort_key rank (rev s)) = runs s"
proof -
  have "sort_key rank (rev s) = rev (runs s)"
  proof (rule sort_key_inj_key_eq)
    show "mset (rev s) = mset (rev (runs s))" using mset_runs [OF assms] by simp
    show "inj_on rank (set (rev s))"
      using inj_on_rank assms by (auto intro: inj_on_subset)
    show "sorted (map rank (rev (runs s)))"
      unfolding runs_def by (rule sorted_rev_additive)
  qed
  then show ?thesis by simp
qed

lemma additive_value_additive:
  "additive_value (additive m d c l x v i) =
     1000 * m + 500 * d + 100 * c + 50 * l + 10 * x + 5 * v + i"
  by (simp add: additive_value_def additive_def sum_list_replicate)

lemma additive_value_mset: "mset s = mset t \<Longrightarrow> additive_value s = additive_value t"
proof -
  assume "mset s = mset t"
  then have "sum_mset (image_mset weight (mset s)) = sum_mset (image_mset weight (mset t))"
    by simp
  then show ?thesis
    unfolding additive_value_def by (simp only: mset_map [symmetric] sum_mset_sum_list)
qed

lemma additive_value_runs:
  "set s \<subseteq> set ROMAN_DIGITS \<Longrightarrow> additive_value (runs s) = additive_value s"
  by (rule additive_value_mset) (rule mset_runs)

lemma additive_value_append: "additive_value (s @ t) = additive_value s + additive_value t"
  by (simp add: additive_value_def)

lemma additive_value_concat:
  "additive_value (concat ss) = sum_list (map additive_value ss)"
  by (induction ss) (simp_all add: additive_value_append, simp add: additive_value_def)

subsection \<open>Replacing inside a run of one symbol\<close>

lemma rewrite_step_replace: "rewrite_step s e = replace (fst e) (snd e) s"
  by (simp add: rewrite_step_def replace_absent)

lemma replace_scan_skip:
  "old \<noteq> [] \<Longrightarrow> hd old \<notin> set P \<Longrightarrow> replace_scan old new (P @ S) = P @ replace_scan old new S"
proof (induction P)
  case Nil
  then show ?case by simp
next
  case (Cons p P)
  then have "\<not> prefix old (p # P @ S)" by (cases old) auto
  then show ?case using Cons by simp
qed

lemma count_list_sublist:
  assumes "sublist xs ys"
  shows "count_list xs a \<le> count_list ys a"
proof -
  obtain ps ss where "ys = ps @ xs @ ss" using assms by (auto simp: sublist_def)
  then show ?thesis by simp
qed

lemma run_too_short:
  assumes "a \<notin> set S" "n < k"
  shows "\<not> sublist (replicate k a) (replicate n a @ S)"
proof
  assume "sublist (replicate k a) (replicate n a @ S)"
  then have "count_list (replicate k a) a \<le> count_list (replicate n a @ S) a"
    by (rule count_list_sublist)
  then show False using assms by (simp add: count_list_replicate)
qed

lemma replace_scan_run:
  assumes "a \<notin> set S" "0 < k"
  shows "replace_scan (replicate k a) new (replicate n a @ S) =
           concat (replicate (n div k) new) @ replicate (n mod k) a @ S"
proof (induction n rule: less_induct)
  case (less n)
  show ?case
  proof (cases "n < k")
    case True
    then show ?thesis
      using run_too_short [OF assms(1) True] by (simp add: replace_scan_absent)
  next
    case False
    then have n: "n = k + (n - k)" by simp
    obtain j where k: "k = Suc j" using assms(2) by (cases k) auto
    have split: "replicate n a @ S = replicate k a @ replicate (n - k) a @ S"
      by (subst n) (simp only: replicate_add append_assoc)
    have "replace_scan (replicate k a) new (replicate k a @ replicate (n - k) a @ S) =
          new @ replace_scan (replicate k a) new (replicate (n - k) a @ S)"
      by (simp add: k)
    moreover have "replace_scan (replicate k a) new (replicate (n - k) a @ S) =
        concat (replicate ((n - k) div k) new) @ replicate ((n - k) mod k) a @ S"
      using less [of "n - k"] False assms(2) by simp
    moreover have "n div k = Suc ((n - k) div k)" "n mod k = (n - k) mod k"
      using False assms(2) by (simp_all add: le_div_geq le_mod_geq)
    ultimately show ?thesis by (simp add: split)
  qed
qed

lemma replace_run:
  assumes "a \<notin> set P" "a \<notin> set S" "0 < k"
  shows "replace (replicate k a) new (P @ replicate n a @ S) =
           P @ concat (replicate (n div k) new) @ replicate (n mod k) a @ S"
proof -
  have "replicate k a \<noteq> []" "hd (replicate k a) \<notin> set P" using assms by auto
  then show ?thesis
    by (simp add: replace_def replace_scan_skip replace_scan_run [OF assms(2,3)])
qed

lemma concat_replicate_single: "concat (replicate q [b]) = replicate q b"
  by (induction q) auto

subsection \<open>A pass of the fold loop over a sorted sum\<close>

definition descending :: "string \<Rightarrow> bool" where
  "descending s = sorted_wrt (\<lambda>a b. rank b \<le> rank a) s"

lemma sorted_wrt_replicate_same: "R a a \<Longrightarrow> sorted_wrt R (replicate n a)"
  by (induction n) auto

lemma descending_additive: "descending (additive m d c l x v i)"
  by (auto simp: descending_def additive_def sorted_wrt_append rank_simps
      sorted_wrt_replicate_same)

lemma descending_sublist: "sublist p s \<Longrightarrow> descending s \<Longrightarrow> descending p"
  by (auto simp: sublist_def descending_def sorted_wrt_append)

lemma replace_not_descending:
  "\<not> descending old \<Longrightarrow> replace old new (additive m d c l x v i) = additive m d c l x v i"
  using descending_sublist descending_additive by (blast intro: replace_absent)

lemma fold_I:
  "replace ''IIIII'' ''V'' (additive m d c l x v i) = additive m d c l x (v + i div 5) (i mod 5)"
proof -
  have p: "''IIIII'' = replicate 5 CHR ''I''" by (simp add: numeral_eq_Suc)
  let ?P = "replicate m CHR ''M'' @ replicate d CHR ''D'' @ replicate c CHR ''C'' @
            replicate l CHR ''L'' @ replicate x CHR ''X'' @ replicate v CHR ''V''"
  have "replace (replicate 5 CHR ''I'') ''V'' (?P @ replicate i CHR ''I'' @ []) =
        ?P @ concat (replicate (i div 5) ''V'') @ replicate (i mod 5) CHR ''I'' @ []"
    by (rule replace_run) auto
  then show ?thesis
    unfolding p additive_def by (simp add: concat_replicate_single replicate_add)
qed

lemma fold_V:
  "replace ''VV'' ''X'' (additive m d c l x v i) = additive m d c l (x + v div 2) (v mod 2) i"
proof -
  have p: "''VV'' = replicate 2 CHR ''V''" by (simp add: numeral_eq_Suc)
  let ?P = "replicate m CHR ''M'' @ replicate d CHR ''D'' @ replicate c CHR ''C'' @
            replicate l CHR ''L'' @ replicate x CHR ''X''"
  have "replace (replicate 2 CHR ''V'') ''X'' (?P @ replicate v CHR ''V'' @ replicate i CHR ''I'') =
        ?P @ concat (replicate (v div 2) ''X'') @ replicate (v mod 2) CHR ''V'' @ replicate i CHR ''I''"
    by (rule replace_run) auto
  then show ?thesis
    unfolding p additive_def by (simp add: concat_replicate_single replicate_add)
qed

lemma fold_X:
  "replace ''XXXXX'' ''L'' (additive m d c l x v i) = additive m d c (l + x div 5) (x mod 5) v i"
proof -
  have p: "''XXXXX'' = replicate 5 CHR ''X''" by (simp add: numeral_eq_Suc)
  let ?P = "replicate m CHR ''M'' @ replicate d CHR ''D'' @ replicate c CHR ''C'' @
            replicate l CHR ''L''"
  let ?S = "replicate v CHR ''V'' @ replicate i CHR ''I''"
  have "replace (replicate 5 CHR ''X'') ''L'' (?P @ replicate x CHR ''X'' @ ?S) =
        ?P @ concat (replicate (x div 5) ''L'') @ replicate (x mod 5) CHR ''X'' @ ?S"
    by (rule replace_run) auto
  then show ?thesis
    unfolding p additive_def by (simp add: concat_replicate_single replicate_add)
qed

lemma fold_L:
  "replace ''LL'' ''C'' (additive m d c l x v i) = additive m d (c + l div 2) (l mod 2) x v i"
proof -
  have p: "''LL'' = replicate 2 CHR ''L''" by (simp add: numeral_eq_Suc)
  let ?P = "replicate m CHR ''M'' @ replicate d CHR ''D'' @ replicate c CHR ''C''"
  let ?S = "replicate x CHR ''X'' @ replicate v CHR ''V'' @ replicate i CHR ''I''"
  have "replace (replicate 2 CHR ''L'') ''C'' (?P @ replicate l CHR ''L'' @ ?S) =
        ?P @ concat (replicate (l div 2) ''C'') @ replicate (l mod 2) CHR ''L'' @ ?S"
    by (rule replace_run) auto
  then show ?thesis
    unfolding p additive_def by (simp add: concat_replicate_single replicate_add)
qed

lemma fold_C:
  "replace ''CCCCC'' ''D'' (additive m d c l x v i) = additive m (d + c div 5) (c mod 5) l x v i"
proof -
  have p: "''CCCCC'' = replicate 5 CHR ''C''" by (simp add: numeral_eq_Suc)
  let ?P = "replicate m CHR ''M'' @ replicate d CHR ''D''"
  let ?S = "replicate l CHR ''L'' @ replicate x CHR ''X'' @ replicate v CHR ''V'' @
            replicate i CHR ''I''"
  have "replace (replicate 5 CHR ''C'') ''D'' (?P @ replicate c CHR ''C'' @ ?S) =
        ?P @ concat (replicate (c div 5) ''D'') @ replicate (c mod 5) CHR ''C'' @ ?S"
    by (rule replace_run) auto
  then show ?thesis
    unfolding p additive_def by (simp add: concat_replicate_single replicate_add)
qed

lemma fold_D:
  "replace ''DD'' ''M'' (additive m d c l x v i) = additive (m + d div 2) (d mod 2) c l x v i"
proof -
  have p: "''DD'' = replicate 2 CHR ''D''" by (simp add: numeral_eq_Suc)
  let ?P = "replicate m CHR ''M''"
  let ?S = "replicate c CHR ''C'' @ replicate l CHR ''L'' @ replicate x CHR ''X'' @
            replicate v CHR ''V'' @ replicate i CHR ''I''"
  have "replace (replicate 2 CHR ''D'') ''M'' (?P @ replicate d CHR ''D'' @ ?S) =
        ?P @ concat (replicate (d div 2) ''M'') @ replicate (d mod 2) CHR ''D'' @ ?S"
    by (rule replace_run) auto
  then show ?thesis
    unfolding p additive_def by (simp add: concat_replicate_single replicate_add)
qed

lemma not_descending_patterns:
  "\<not> descending ''VIV''" "\<not> descending ''LXL''" "\<not> descending ''DCD''"
  by (simp_all add: descending_def rank_simps)

text \<open>The carries of one pass, from the units upwards.\<close>

definition carry_v :: "nat \<Rightarrow> nat \<Rightarrow> nat" where "carry_v v i = v + i div 5"
definition carry_x :: "nat \<Rightarrow> nat \<Rightarrow> nat \<Rightarrow> nat" where "carry_x x v i = x + carry_v v i div 2"
definition carry_l :: "nat \<Rightarrow> nat \<Rightarrow> nat \<Rightarrow> nat \<Rightarrow> nat" where
  "carry_l l x v i = l + carry_x x v i div 5"
definition carry_c :: "nat \<Rightarrow> nat \<Rightarrow> nat \<Rightarrow> nat \<Rightarrow> nat \<Rightarrow> nat" where
  "carry_c c l x v i = c + carry_l l x v i div 2"
definition carry_d :: "nat \<Rightarrow> nat \<Rightarrow> nat \<Rightarrow> nat \<Rightarrow> nat \<Rightarrow> nat \<Rightarrow> nat" where
  "carry_d d c l x v i = d + carry_c c l x v i div 5"
definition carry_m :: "nat \<Rightarrow> nat \<Rightarrow> nat \<Rightarrow> nat \<Rightarrow> nat \<Rightarrow> nat \<Rightarrow> nat \<Rightarrow> nat" where
  "carry_m m d c l x v i = m + carry_d d c l x v i div 2"

lemma fold_pass_additive:
  "fold_pass (additive m d c l x v i) =
     additive (carry_m m d c l x v i) (carry_d d c l x v i mod 2) (carry_c c l x v i mod 5)
       (carry_l l x v i mod 2) (carry_x x v i mod 5) (carry_v v i mod 2) (i mod 5)"
  by (simp add: fold_pass_rewrite REDUCTION_MAP_def rewrite_step_replace
      fold_I fold_V fold_X fold_L fold_C fold_D replace_not_descending not_descending_patterns
      carry_v_def carry_x_def carry_l_def carry_c_def carry_d_def carry_m_def)

subsection \<open>The fold loop computes the digits of the sum\<close>

definition normal :: "nat \<Rightarrow> string" where
  "normal n =
     additive (n div 1000) (n div 500 mod 2) (n div 100 mod 5) (n div 50 mod 2)
       (n div 10 mod 5) (n div 5 mod 2) (n mod 5)"

lemma carries:
  fixes m d c l x v i :: nat
  defines "n \<equiv> 1000 * m + 500 * d + 100 * c + 50 * l + 10 * x + 5 * v + i"
  shows "n div 5 = 200 * m + 100 * d + 20 * c + 10 * l + 2 * x + carry_v v i"
    and "n div 10 = 100 * m + 50 * d + 10 * c + 5 * l + carry_x x v i"
    and "n div 50 = 20 * m + 10 * d + 2 * c + carry_l l x v i"
    and "n div 100 = 10 * m + 5 * d + carry_c c l x v i"
    and "n div 500 = 2 * m + carry_d d c l x v i"
    and "n div 1000 = carry_m m d c l x v i"
proof -
  show a: "n div 5 = 200 * m + 100 * d + 20 * c + 10 * l + 2 * x + carry_v v i"
    unfolding n_def carry_v_def by simp
  have "n div 10 = n div 5 div 2" by (simp add: div_mult2_eq [symmetric])
  then show b: "n div 10 = 100 * m + 50 * d + 10 * c + 5 * l + carry_x x v i"
    unfolding a carry_x_def by simp
  have "n div 50 = n div 10 div 5" by (simp add: div_mult2_eq [symmetric])
  then show c: "n div 50 = 20 * m + 10 * d + 2 * c + carry_l l x v i"
    unfolding b carry_l_def by simp
  have "n div 100 = n div 50 div 2" by (simp add: div_mult2_eq [symmetric])
  then show d: "n div 100 = 10 * m + 5 * d + carry_c c l x v i"
    unfolding c carry_c_def by simp
  have "n div 500 = n div 100 div 5" by (simp add: div_mult2_eq [symmetric])
  then show e: "n div 500 = 2 * m + carry_d d c l x v i"
    unfolding d carry_d_def by simp
  have "n div 1000 = n div 500 div 2" by (simp add: div_mult2_eq [symmetric])
  then show "n div 1000 = carry_m m d c l x v i"
    unfolding e carry_m_def by simp
qed

lemma fold_pass_normal:
  "fold_pass (additive m d c l x v i) = normal (additive_value (additive m d c l x v i))"
proof -
  let ?n = "1000 * m + 500 * d + 100 * c + 50 * l + 10 * x + 5 * v + i"
  have "?n = i + 5 * (200 * m + 100 * d + 20 * c + 10 * l + 2 * x + v)" by simp
  then have i: "?n mod 5 = i mod 5" by (simp only: mod_mult_self2)
  have "?n div 5 = carry_v v i + 2 * (100 * m + 50 * d + 10 * c + 5 * l + x)"
    unfolding carries by simp
  then have v: "?n div 5 mod 2 = carry_v v i mod 2" by (simp only: mod_mult_self2)
  have "?n div 10 = carry_x x v i + 5 * (20 * m + 10 * d + 2 * c + l)"
    unfolding carries by simp
  then have x: "?n div 10 mod 5 = carry_x x v i mod 5" by (simp only: mod_mult_self2)
  have "?n div 50 = carry_l l x v i + 2 * (10 * m + 5 * d + c)"
    unfolding carries by simp
  then have l: "?n div 50 mod 2 = carry_l l x v i mod 2" by (simp only: mod_mult_self2)
  have "?n div 100 = carry_c c l x v i + 5 * (2 * m + d)"
    unfolding carries by simp
  then have c: "?n div 100 mod 5 = carry_c c l x v i mod 5" by (simp only: mod_mult_self2)
  have "?n div 500 = carry_d d c l x v i + 2 * m"
    unfolding carries by simp
  then have d: "?n div 500 mod 2 = carry_d d c l x v i mod 2" by (simp only: mod_mult_self2)
  have m: "?n div 1000 = carry_m m d c l x v i" by (rule carries)
  show ?thesis
    unfolding fold_pass_additive additive_value_additive normal_def
    by (simp only: i v x l c d m)
qed

lemma additive_value_normal: "additive_value (normal n) = n"
proof -
  have "n = 1000 * (n div 1000) + n mod 1000" by simp
  moreover have "n mod 1000 = 500 * (n div 500 mod 2) + n mod 500"
    using mod_mult2_eq [of n 500 2] by simp
  moreover have "n mod 500 = 100 * (n div 100 mod 5) + n mod 100"
    using mod_mult2_eq [of n 100 5] by simp
  moreover have "n mod 100 = 50 * (n div 50 mod 2) + n mod 50"
    using mod_mult2_eq [of n 50 2] by simp
  moreover have "n mod 50 = 10 * (n div 10 mod 5) + n mod 10"
    using mod_mult2_eq [of n 10 5] by simp
  moreover have "n mod 10 = 5 * (n div 5 mod 2) + n mod 5"
    using mod_mult2_eq [of n 5 2] by simp
  ultimately show ?thesis
    unfolding normal_def additive_value_additive by linarith
qed

lemma fold_pass_normal_fixed: "fold_pass (normal n) = normal n"
proof -
  have "fold_pass s = normal (additive_value s)" if "s = additive m d c l x v i"
    for s m d c l x v i using that by (simp add: fold_pass_normal)
  from this [OF normal_def] show ?thesis by (simp add: additive_value_normal)
qed

lemma fold_digits_normal: "fold_digits (normal n) = normal n"
  by (subst fold_digits_unfold) (simp add: fold_pass_normal_fixed)

lemma fold_digits_additive:
  "fold_digits (additive m d c l x v i) = normal (additive_value (additive m d c l x v i))"
  by (subst fold_digits_unfold) (simp add: fold_pass_normal fold_digits_normal)

lemma fold_digits_runs:
  "set s \<subseteq> set ROMAN_DIGITS \<Longrightarrow> fold_digits (runs s) = normal (additive_value s)"
  using additive_value_runs [of s] by (simp add: runs_def fold_digits_additive)

subsection \<open>Replacing inside one part of a string\<close>

lemma replace_scan_keep:
  "old \<noteq> [] \<Longrightarrow> last old \<notin> set S \<Longrightarrow>
   replace_scan old new (Q @ S) = replace_scan old new Q @ S"
proof (induction old new Q rule: replace_scan.induct)
  case (1 old new)
  have "\<not> sublist old S"
  proof
    assume "sublist old S"
    then have "set old \<subseteq> set S" by (rule set_mono_sublist)
    then show False using 1 last_in_set by blast
  qed
  then show ?case by (simp add: replace_scan_absent)
next
  case (2 old new c Q)
  have pre: "prefix old ((c # Q) @ S) \<longleftrightarrow> prefix old (c # Q)"
  proof
    assume "prefix old ((c # Q) @ S)"
    then consider "prefix old (c # Q)" | us where "old = (c # Q) @ us" "prefix us S"
      unfolding prefix_append by blast
    then show "prefix old (c # Q)"
    proof cases
      case 1
      then show ?thesis .
    next
      case 2
      show ?thesis
      proof (cases "us = []")
        case True
        then show ?thesis using 2 by simp
      next
        case False
        then have "last old = last us" using 2 by simp
        moreover have "last us \<in> set S"
          using False 2(2) last_in_set set_mono_prefix by blast
        ultimately show ?thesis using "2.prems" by simp
      qed
    qed
  next
    assume "prefix old (c # Q)"
    then show "prefix old ((c # Q) @ S)" by (rule prefix_prefix)
  qed
  show ?case
  proof (cases "prefix old (c # Q)")
    case True
    then have len: "length old \<le> length (c # Q)" by (rule prefix_length_le)
    have "replace_scan old new (drop (length old) (c # Q) @ S) =
          replace_scan old new (drop (length old) (c # Q)) @ S"
      using 2 True by blast
    moreover have "drop (length old - length (c # Q)) S = S" using len by simp
    then have "drop (length old) ((c # Q) @ S) = drop (length old) (c # Q) @ S"
      by (simp only: drop_append)
    ultimately show ?thesis using True pre "2.prems" by simp
  next
    case False
    then have "replace_scan old new (Q @ S) = replace_scan old new Q @ S"
      using 2 by blast
    then show ?thesis using False pre by simp
  qed
qed

lemma rewrite_step_middle:
  assumes "fst e \<noteq> []" "hd (fst e) \<notin> set P" "last (fst e) \<notin> set S"
  shows "rewrite_step (P @ Q @ S) e = P @ rewrite_step Q e @ S"
  using assms
  by (simp add: rewrite_step_replace replace_def replace_scan_skip replace_scan_keep)

lemma foldl_rewrite_middle:
  assumes "list_all (\<lambda>e. fst e \<noteq> [] \<and> hd (fst e) \<notin> set P \<and> last (fst e) \<notin> set S) m"
  shows "foldl rewrite_step (P @ Q @ S) m = P @ foldl rewrite_step Q m @ S"
  using assms by (induction m arbitrary: Q) (simp_all add: rewrite_step_middle)

subsection \<open>One decimal digit in additive and in tidy form\<close>

definition additive_digit :: "char \<Rightarrow> char \<Rightarrow> nat \<Rightarrow> string" where
  "additive_digit one five k = replicate (k div 5) five @ replicate (k mod 5) one"

text \<open>The tidy form, as the docstring of the module describes it (and the glossary of
  the specification): the number is written digit by digit, thousands first; a decimal
  digit is a run of at most three symbols, after the five-symbol when the digit is above
  five, and four and nine are written in subtractive notation (\<open>IV\<close>, \<open>IX\<close>, \<open>XL\<close>,
  \<open>XC\<close>, \<open>CD\<close>, \<open>CM\<close>). The thousands are a run of \<open>M\<close>, so that up to 3999 no symbol
  stands more than three times in a row.\<close>

definition tidy_digit :: "char \<Rightarrow> char \<Rightarrow> char \<Rightarrow> nat \<Rightarrow> string" where
  "tidy_digit one five ten k =
     (if k = 9 then [one, ten]
      else if k = 4 then [one, five]
      else if 5 \<le> k then five # replicate (k - 5) one
      else replicate k one)"

definition tidy :: "nat \<Rightarrow> string" where
  "tidy n =
     replicate (n div 1000) CHR ''M'' @
     tidy_digit CHR ''C'' CHR ''D'' CHR ''M'' (n div 100 mod 10) @
     tidy_digit CHR ''X'' CHR ''L'' CHR ''C'' (n div 10 mod 10) @
     tidy_digit CHR ''I'' CHR ''V'' CHR ''X'' (n mod 10)"

text \<open>The examples of the docstring.\<close>

lemma tidy_examples:
  "tidy 4 = ''IV''" "tidy 9 = ''IX''" "tidy 40 = ''XL''" "tidy 90 = ''XC''"
  "tidy 400 = ''CD''" "tidy 900 = ''CM''" "tidy 49 = ''XLIX''" "tidy 207 = ''CCVII''"
  "tidy 1066 = ''MLXVI''" "tidy 1904 = ''MCMIV''" "tidy 1954 = ''MCMLIV''"
  "tidy 1990 = ''MCMXC''" "tidy 3999 = ''MMMCMXCIX''"
proof -
  have run: "replicate (Suc 0) x = [x]" "replicate 2 x = [x, x]" "replicate 3 x = [x, x, x]"
    for x :: char
    by (simp_all add: numeral_eq_Suc)
  show "tidy 4 = ''IV''" "tidy 9 = ''IX''" "tidy 40 = ''XL''" "tidy 90 = ''XC''"
    "tidy 400 = ''CD''" "tidy 900 = ''CM''" "tidy 49 = ''XLIX''" "tidy 207 = ''CCVII''"
    "tidy 1066 = ''MLXVI''" "tidy 1904 = ''MCMIV''" "tidy 1954 = ''MCMLIV''"
    "tidy 1990 = ''MCMXC''" "tidy 3999 = ''MMMCMXCIX''"
    by (simp_all add: tidy_def tidy_digit_def run)
qed

lemma set_additive_digit: "set (additive_digit one five k) \<subseteq> {one, five}"
  by (auto simp: additive_digit_def)

lemma set_tidy_digit: "set (tidy_digit one five ten k) \<subseteq> {one, five, ten}"
  by (auto simp: tidy_digit_def)

definition digits :: "nat list" where
  "digits = [0, 1, 2, 3, 4, 5, 6, 7, 8, 9]"

lemma digits_iff: "k \<in> set digits \<longleftrightarrow> k < 10"
  by (auto simp: digits_def)

lemma compress_hundreds:
  "list_all (\<lambda>k. foldl rewrite_step (additive_digit CHR ''C'' CHR ''D'' k)
       [(''DCCCC'', ''CM''), (''CCCC'', ''CD'')] = tidy_digit CHR ''C'' CHR ''D'' CHR ''M'' k) digits"
  by code_simp

lemma compress_tens:
  "list_all (\<lambda>k. foldl rewrite_step (additive_digit CHR ''X'' CHR ''L'' k)
       [(''LXXXX'', ''XC''), (''XXXX'', ''XL'')] = tidy_digit CHR ''X'' CHR ''L'' CHR ''C'' k) digits"
  by code_simp

lemma compress_units:
  "list_all (\<lambda>k. foldl rewrite_step (additive_digit CHR ''I'' CHR ''V'' k)
       [(''VIIII'', ''IX''), (''IIII'', ''IV'')] = tidy_digit CHR ''I'' CHR ''V'' CHR ''X'' k) digits"
  by code_simp

lemma expand_hundreds:
  "list_all (\<lambda>k. foldl rewrite_step (tidy_digit CHR ''C'' CHR ''D'' CHR ''M'' k)
       [(''CM'', ''DCCCC''), (''CD'', ''CCCC'')] = additive_digit CHR ''C'' CHR ''D'' k) digits"
  by code_simp

lemma expand_tens:
  "list_all (\<lambda>k. foldl rewrite_step (tidy_digit CHR ''X'' CHR ''L'' CHR ''C'' k)
       [(''XC'', ''LXXXX''), (''XL'', ''XXXX'')] = additive_digit CHR ''X'' CHR ''L'' k) digits"
  by code_simp

lemma expand_units:
  "list_all (\<lambda>k. foldl rewrite_step (tidy_digit CHR ''I'' CHR ''V'' CHR ''X'' k)
       [(''IX'', ''VIIII''), (''IV'', ''IIII'')] = additive_digit CHR ''I'' CHR ''V'' k) digits"
  by code_simp

subsection \<open>Compressing the digits of a number, and expanding them again\<close>

lemma compress_parts:
  assumes "h < 10" "t < 10" "u < 10"
  shows "replace_additive
           (replicate m CHR ''M'' @ additive_digit CHR ''C'' CHR ''D'' h @
            additive_digit CHR ''X'' CHR ''L'' t @ additive_digit CHR ''I'' CHR ''V'' u) =
         replicate m CHR ''M'' @ tidy_digit CHR ''C'' CHR ''D'' CHR ''M'' h @
            tidy_digit CHR ''X'' CHR ''L'' CHR ''C'' t @ tidy_digit CHR ''I'' CHR ''V'' CHR ''X'' u"
proof -
  let ?M = "replicate m CHR ''M''"
  let ?H0 = "additive_digit CHR ''C'' CHR ''D'' h" and ?H1 = "tidy_digit CHR ''C'' CHR ''D'' CHR ''M'' h"
  let ?T0 = "additive_digit CHR ''X'' CHR ''L'' t" and ?T1 = "tidy_digit CHR ''X'' CHR ''L'' CHR ''C'' t"
  let ?U0 = "additive_digit CHR ''I'' CHR ''V'' u" and ?U1 = "tidy_digit CHR ''I'' CHR ''V'' CHR ''X'' u"
  let ?eh = "[(''DCCCC'', ''CM''), (''CCCC'', ''CD'')]"
  let ?et = "[(''LXXXX'', ''XC''), (''XXXX'', ''XL'')]"
  let ?eu = "[(''VIIII'', ''IX''), (''IIII'', ''IV'')]"
  note sets = set_additive_digit [of "CHR ''C''" "CHR ''D''" h]
    set_additive_digit [of "CHR ''X''" "CHR ''L''" t]
    set_additive_digit [of "CHR ''I''" "CHR ''V''" u]
    set_tidy_digit [of "CHR ''C''" "CHR ''D''" "CHR ''M''" h]
    set_tidy_digit [of "CHR ''X''" "CHR ''L''" "CHR ''C''" t]
    set_tidy_digit [of "CHR ''I''" "CHR ''V''" "CHR ''X''" u]
  have h: "foldl rewrite_step ?H0 ?eh = ?H1"
    using compress_hundreds assms(1) by (simp add: list_all_iff digits_iff)
  have t: "foldl rewrite_step ?T0 ?et = ?T1"
    using compress_tens assms(2) by (simp add: list_all_iff digits_iff)
  have u: "foldl rewrite_step ?U0 ?eu = ?U1"
    using compress_units assms(3) by (simp add: list_all_iff digits_iff)
  have "foldl rewrite_step (?M @ ?H0 @ (?T0 @ ?U0)) ?eh = ?M @ foldl rewrite_step ?H0 ?eh @ (?T0 @ ?U0)"
    by (rule foldl_rewrite_middle) (use sets in auto)
  then have 1: "foldl rewrite_step (?M @ ?H0 @ ?T0 @ ?U0) ?eh = ?M @ ?H1 @ ?T0 @ ?U0"
    by (simp only: h)
  have "foldl rewrite_step ((?M @ ?H1) @ ?T0 @ ?U0) ?et = (?M @ ?H1) @ foldl rewrite_step ?T0 ?et @ ?U0"
    by (rule foldl_rewrite_middle) (use sets in auto)
  then have 2: "foldl rewrite_step (?M @ ?H1 @ ?T0 @ ?U0) ?et = ?M @ ?H1 @ ?T1 @ ?U0"
    by (simp only: t append_assoc)
  have "foldl rewrite_step ((?M @ ?H1 @ ?T1) @ ?U0 @ []) ?eu = (?M @ ?H1 @ ?T1) @ foldl rewrite_step ?U0 ?eu @ []"
    by (rule foldl_rewrite_middle) (use sets in auto)
  then have 3: "foldl rewrite_step (?M @ ?H1 @ ?T1 @ ?U0) ?eu = ?M @ ?H1 @ ?T1 @ ?U1"
    by (simp only: u append_assoc append_Nil2)
  have em: "map prod.swap ADDITIVE_MAP = ?eh @ ?et @ ?eu"
    by (simp add: ADDITIVE_MAP_def)
  show ?thesis
    unfolding replace_additive_rewrite by (simp only: em foldl_append 1 2 3)
qed

lemma expand_parts:
  assumes "h < 10" "t < 10" "u < 10"
  shows "replace_subtractive
           (replicate m CHR ''M'' @ tidy_digit CHR ''C'' CHR ''D'' CHR ''M'' h @
            tidy_digit CHR ''X'' CHR ''L'' CHR ''C'' t @ tidy_digit CHR ''I'' CHR ''V'' CHR ''X'' u) =
         replicate m CHR ''M'' @ additive_digit CHR ''C'' CHR ''D'' h @
            additive_digit CHR ''X'' CHR ''L'' t @ additive_digit CHR ''I'' CHR ''V'' u"
proof -
  let ?M = "replicate m CHR ''M''"
  let ?H0 = "additive_digit CHR ''C'' CHR ''D'' h" and ?H1 = "tidy_digit CHR ''C'' CHR ''D'' CHR ''M'' h"
  let ?T0 = "additive_digit CHR ''X'' CHR ''L'' t" and ?T1 = "tidy_digit CHR ''X'' CHR ''L'' CHR ''C'' t"
  let ?U0 = "additive_digit CHR ''I'' CHR ''V'' u" and ?U1 = "tidy_digit CHR ''I'' CHR ''V'' CHR ''X'' u"
  let ?eh = "[(''CM'', ''DCCCC''), (''CD'', ''CCCC'')]"
  let ?et = "[(''XC'', ''LXXXX''), (''XL'', ''XXXX'')]"
  let ?eu = "[(''IX'', ''VIIII''), (''IV'', ''IIII'')]"
  note sets = set_additive_digit [of "CHR ''C''" "CHR ''D''" h]
    set_additive_digit [of "CHR ''X''" "CHR ''L''" t]
    set_additive_digit [of "CHR ''I''" "CHR ''V''" u]
    set_tidy_digit [of "CHR ''C''" "CHR ''D''" "CHR ''M''" h]
    set_tidy_digit [of "CHR ''X''" "CHR ''L''" "CHR ''C''" t]
    set_tidy_digit [of "CHR ''I''" "CHR ''V''" "CHR ''X''" u]
  have h: "foldl rewrite_step ?H1 ?eh = ?H0"
    using expand_hundreds assms(1) by (simp add: list_all_iff digits_iff)
  have t: "foldl rewrite_step ?T1 ?et = ?T0"
    using expand_tens assms(2) by (simp add: list_all_iff digits_iff)
  have u: "foldl rewrite_step ?U1 ?eu = ?U0"
    using expand_units assms(3) by (simp add: list_all_iff digits_iff)
  have "foldl rewrite_step (?M @ ?H1 @ (?T1 @ ?U1)) ?eh = ?M @ foldl rewrite_step ?H1 ?eh @ (?T1 @ ?U1)"
    by (rule foldl_rewrite_middle) (use sets in auto)
  then have 1: "foldl rewrite_step (?M @ ?H1 @ ?T1 @ ?U1) ?eh = ?M @ ?H0 @ ?T1 @ ?U1"
    by (simp only: h)
  have "foldl rewrite_step ((?M @ ?H0) @ ?T1 @ ?U1) ?et = (?M @ ?H0) @ foldl rewrite_step ?T1 ?et @ ?U1"
    by (rule foldl_rewrite_middle) (use sets in auto)
  then have 2: "foldl rewrite_step (?M @ ?H0 @ ?T1 @ ?U1) ?et = ?M @ ?H0 @ ?T0 @ ?U1"
    by (simp only: t append_assoc)
  have "foldl rewrite_step ((?M @ ?H0 @ ?T0) @ ?U1 @ []) ?eu = (?M @ ?H0 @ ?T0) @ foldl rewrite_step ?U1 ?eu @ []"
    by (rule foldl_rewrite_middle) (use sets in auto)
  then have 3: "foldl rewrite_step (?M @ ?H0 @ ?T0 @ ?U1) ?eu = ?M @ ?H0 @ ?T0 @ ?U0"
    by (simp only: u append_assoc append_Nil2)
  have em: "ADDITIVE_MAP = ?eh @ ?et @ ?eu"
    by (simp add: ADDITIVE_MAP_def)
  show ?thesis
    unfolding replace_subtractive_rewrite by (simp only: em foldl_append 1 2 3)
qed

lemma normal_parts:
  "normal n = replicate (n div 1000) CHR ''M'' @
     additive_digit CHR ''C'' CHR ''D'' (n div 100 mod 10) @
     additive_digit CHR ''X'' CHR ''L'' (n div 10 mod 10) @
     additive_digit CHR ''I'' CHR ''V'' (n mod 10)"
proof -
  have digit: "a mod 10 div 5 = a div 5 mod 2" "a mod 10 mod 5 = a mod 5" for a :: nat
    using mod_mult2_eq [of a 5 2] by (simp_all add: mod_mod_cancel)
  have "n div 100 div 5 = n div 500" "n div 10 div 5 = n div 50"
    by (simp_all add: div_mult2_eq [symmetric])
  then show ?thesis
    by (simp add: normal_def additive_def additive_digit_def digit)
qed

lemma replace_additive_normal: "replace_additive (normal n) = tidy n"
  unfolding normal_parts tidy_def by (rule compress_parts) simp_all

lemma replace_subtractive_tidy: "replace_subtractive (tidy n) = normal n"
  unfolding normal_parts tidy_def by (rule expand_parts) simp_all

subsection \<open>What the addition computes\<close>

text \<open>The number a token contributes to the sum: the additive value of its expansion.
  For valid tokens \<open>add\<close> returns the tidy numeral of the sum of these numbers, and the
  tidy numeral of \<open>n\<close> contributes \<open>n\<close>: on tidy numerals \<open>add\<close> is addition.\<close>

definition token_value :: "string \<Rightarrow> nat" where
  "token_value n = additive_value (replace_subtractive n)"

lemma add_tidy_sum:
  assumes "\<forall>n\<in>set numbers. set n \<subseteq> set ROMAN_DIGITS"
  shows "add numbers = Inr (tidy (sum_list (map token_value numbers)))"
proof -
  let ?s = "concat (map replace_subtractive numbers)"
  have s: "set ?s \<subseteq> set ROMAN_DIGITS"
    using assms set_replace_subtractive by auto
  have "additive_value ?s = sum_list (map token_value numbers)"
    by (simp add: additive_value_concat comp_def token_value_def [abs_def])
  then have "replace_additive (fold_digits (rev (sort_key rank (rev ?s)))) =
      tidy (sum_list (map token_value numbers))"
    using s by (simp add: sort_runs fold_digits_runs replace_additive_normal)
  then show ?thesis using add_valid [OF assms] by simp
qed

lemma token_value_tidy: "token_value (tidy n) = n"
  by (simp add: token_value_def replace_subtractive_tidy additive_value_normal)

lemma set_additive: "set (additive m d c l x v i) \<subseteq> set ROMAN_DIGITS"
  by (auto simp: additive_def set_ROMAN_DIGITS)

lemma set_tidy: "set (tidy n) \<subseteq> set ROMAN_DIGITS"
proof -
  have "set (normal n) \<subseteq> set ROMAN_DIGITS" unfolding normal_def by (rule set_additive)
  then have "set (replace_additive (normal n)) \<subseteq> set ROMAN_DIGITS"
    by (rule set_replace_additive)
  then show ?thesis by (simp add: replace_additive_normal)
qed

lemma add_tidy: "add (map tidy ns) = Inr (tidy (sum_list ns))"
proof -
  have "\<forall>n\<in>set (map tidy ns). set n \<subseteq> set ROMAN_DIGITS" using set_tidy by auto
  then have "add (map tidy ns) = Inr (tidy (sum_list (map token_value (map tidy ns))))"
    by (rule add_tidy_sum)
  then show ?thesis by (simp add: comp_def token_value_tidy)
qed

lemma no_pair_in_descending:
  assumes "descending s"
  shows "list_all (\<lambda>e. \<not> sublist (fst e) s) ADDITIVE_MAP"
proof -
  have "list_all (\<lambda>e. \<not> descending (fst e)) ADDITIVE_MAP"
    by (simp add: ADDITIVE_MAP_def descending_def rank_simps)
  then show ?thesis
    using assms descending_sublist by (auto simp: list_all_iff)
qed

lemma descending_normal: "descending (normal n)"
  unfolding normal_def by (rule descending_additive)

subsection \<open>Tokens in additive form\<close>

lemma descending_runs:
  assumes "set t \<subseteq> set ROMAN_DIGITS" "descending t"
  shows "runs t = t"
proof -
  have "sorted (map rank (rev t))"
    using assms(2) by (simp add: descending_def sorted_map sorted_wrt_rev)
  then have "sort_key rank (rev t) = rev t" by (rule sort_key_id_if_sorted)
  then show ?thesis using sort_runs [OF assms(1)] by simp
qed

lemma replace_subtractive_descending: "descending t \<Longrightarrow> replace_subtractive t = t"
  unfolding replace_subtractive_rewrite
  by (rule foldl_rewrite_absent) (rule no_pair_in_descending)

lemma fold_digits_descending:
  assumes "set t \<subseteq> set ROMAN_DIGITS" "descending t"
  shows "fold_digits t = normal (additive_value t)"
  using fold_digits_runs [OF assms(1)] descending_runs [OF assms] by simp

lemma add_descending:
  assumes "\<forall>t\<in>set ts. set t \<subseteq> set ROMAN_DIGITS \<and> descending t"
  shows "add ts = Inr (tidy (sum_list (map additive_value ts)))"
proof -
  have eq: "map additive_value ts = map token_value ts"
    using assms by (simp add: token_value_def replace_subtractive_descending)
  show ?thesis
    unfolding eq by (rule add_tidy_sum) (use assms in simp)
qed

lemma descending_replicate: "descending (replicate n c)"
  by (simp add: descending_def sorted_wrt_replicate_same)

section \<open>Properties\<close>

text \<open>
  C1. The known values of the addition: \<open>add('IV','V') == 'IX'\<close>,
  \<open>add('XVII','X','XIII') == 'XL'\<close>, \<open>add('III','III') == 'VI'\<close> and
  \<open>add('MCMXC','X') == 'MM'\<close>.
\<close>

theorem add_known_values:
  "add [''IV'', ''V''] = Inr ''IX'' \<and>
   add [''XVII'', ''X'', ''XIII''] = Inr ''XL'' \<and>
   add [''III'', ''III''] = Inr ''VI'' \<and>
   add [''MCMXC'', ''X''] = Inr ''MM''"
  by code_simp

text \<open>
  C2. \<open>add\<close> fails if and only if some token has a character outside
  \<open>I, V, X, L, C, D, M\<close>. The failure is the one of the validation loop, which runs
  before any token is transformed: the error is \<open>InvalidNumeral t\<close> exactly when
  \<open>t\<close> is the first token of the argument list with such a character, and then
  there is no result. \<open>add('IIX9')\<close> fails, and a token passes \<open>check_roman\<close>
  exactly when it is made of the seven symbols only.
\<close>

theorem add_fails_iff_invalid_token:
  "((\<exists>e. add numbers = Inl e) \<longleftrightarrow> (\<exists>n\<in>set numbers. \<not> set n \<subseteq> set ROMAN_DIGITS)) \<and>
   (add numbers = Inl e \<longleftrightarrow>
      (\<exists>pre t post. numbers = pre @ t # post \<and> (\<forall>n\<in>set pre. set n \<subseteq> set ROMAN_DIGITS) \<and>
         \<not> set t \<subseteq> set ROMAN_DIGITS \<and> e = InvalidNumeral t)) \<and>
   (add numbers = Inl e \<longleftrightarrow> check_all numbers = Inl e) \<and>
   (check_roman s = Inr () \<longleftrightarrow> set s \<subseteq> set ROMAN_DIGITS) \<and>
   set ROMAN_DIGITS =
     {CHR ''I'', CHR ''V'', CHR ''X'', CHR ''L'', CHR ''C'', CHR ''D'', CHR ''M''} \<and>
   add [''IIX9''] = Inl (InvalidNumeral ''IIX9'')"
proof (intro conjI)
  show "(\<exists>e. add numbers = Inl e) \<longleftrightarrow> (\<exists>n\<in>set numbers. \<not> set n \<subseteq> set ROMAN_DIGITS)"
  proof
    assume "\<exists>e. add numbers = Inl e"
    then obtain e where "check_all numbers = Inl e" by (auto simp: add_Inl)
    then show "\<exists>n\<in>set numbers. \<not> set n \<subseteq> set ROMAN_DIGITS"
      unfolding check_all_Inl by auto
  next
    assume "\<exists>n\<in>set numbers. \<not> set n \<subseteq> set ROMAN_DIGITS"
    then have "check_all numbers \<noteq> Inr ()" by (simp add: check_all_Inr)
    then obtain e where "check_all numbers = Inl e" by (cases "check_all numbers") auto
    then show "\<exists>e. add numbers = Inl e" by (auto simp: add_Inl)
  qed
  show "add numbers = Inl e \<longleftrightarrow>
      (\<exists>pre t post. numbers = pre @ t # post \<and> (\<forall>n\<in>set pre. set n \<subseteq> set ROMAN_DIGITS) \<and>
         \<not> set t \<subseteq> set ROMAN_DIGITS \<and> e = InvalidNumeral t)"
    unfolding add_Inl by (rule check_all_Inl)
  show "add numbers = Inl e \<longleftrightarrow> check_all numbers = Inl e" by (rule add_Inl)
  show "check_roman s = Inr () \<longleftrightarrow> set s \<subseteq> set ROMAN_DIGITS" by (rule check_roman_Inr)
  show "set ROMAN_DIGITS =
     {CHR ''I'', CHR ''V'', CHR ''X'', CHR ''L'', CHR ''C'', CHR ''D'', CHR ''M''}"
    by (rule set_ROMAN_DIGITS)
  show "add [''IIX9''] = Inl (InvalidNumeral ''IIX9'')" by code_simp
qed

theorem add_fails_iff_invalid_token_witness:
  "add [''IV'', ''IIX9'', ''V9''] = Inl (InvalidNumeral ''IIX9'')"
proof -
  have "[''IV'', ''IIX9'', ''V9''] = [''IV''] @ ''IIX9'' # [''V9''] \<and>
        (\<forall>n\<in>set [''IV'']. set n \<subseteq> set ROMAN_DIGITS) \<and>
        \<not> set ''IIX9'' \<subseteq> set ROMAN_DIGITS \<and> InvalidNumeral ''IIX9'' = InvalidNumeral ''IIX9''"
    by (simp add: ROMAN_DIGITS_def)
  then have "\<exists>pre t post. [''IV'', ''IIX9'', ''V9''] = pre @ t # post \<and>
        (\<forall>n\<in>set pre. set n \<subseteq> set ROMAN_DIGITS) \<and>
        \<not> set t \<subseteq> set ROMAN_DIGITS \<and> InvalidNumeral ''IIX9'' = InvalidNumeral t"
    by blast
  then show ?thesis
    by (rule add_fails_iff_invalid_token
          [of "[''IV'', ''IIX9'', ''V9'']" "InvalidNumeral ''IIX9''",
           THEN conjunct2, THEN conjunct1, THEN iffD2])
qed

text \<open>
  C3. Round trip: for the tidy numeral of every number from 1 to 3999, compressing the
  expansion gives the numeral back:
  \<open>replace_additive(replace_subtractive(N)) == N\<close>.
\<close>

theorem compress_expand_tidy:
  assumes "1 \<le> n" "n \<le> 3999"
  shows "replace_additive (replace_subtractive (tidy n)) = tidy n"
  by (simp add: replace_subtractive_tidy replace_additive_normal)

theorem compress_expand_tidy_witness:
  "tidy 1994 = ''MCMXCIV'' \<and> replace_subtractive ''MCMXCIV'' = ''MDCCCCLXXXXIIII'' \<and>
   replace_additive (replace_subtractive ''MCMXCIV'') = ''MCMXCIV''"
proof -
  have t: "tidy 1994 = ''MCMXCIV''" by code_simp
  have "replace_additive (replace_subtractive (tidy 1994)) = tidy 1994"
    by (rule compress_expand_tidy) simp_all
  moreover have "replace_subtractive ''MCMXCIV'' = ''MDCCCCLXXXXIIII''" by code_simp
  ultimately show ?thesis using t by simp
qed

text \<open>
  C4. Relaxed input: \<open>add('IIII','I') == 'V'\<close> and \<open>add('XXXXXX') == 'LX'\<close>. A run
  of one repeated symbol, and any token in which none of the six subtractive pairs occurs,
  goes through \<open>replace_subtractive\<close> unchanged. The fold loop then normalises it: for a
  run of \<open>n\<close> symbols \<open>c\<close>, and for every token in additive form (symbols in
  non-increasing order of weight), \<open>fold_digits\<close> returns the digits of the token's
  value, that is the runs \<open>M\<dots>D\<dots>C\<dots>L\<dots>X\<dots>V\<dots>I\<dots>\<close> of that value with fewer than two
  \<open>D\<close>, \<open>L\<close>, \<open>V\<close> and fewer than five \<open>C\<close>, \<open>X\<close>, \<open>I\<close>; and \<open>add\<close> of such
  tokens returns the tidy numeral of the sum of their values.
\<close>

theorem add_relaxed_input:
  "add [''IIII'', ''I''] = Inr ''V'' \<and> add [''XXXXXX''] = Inr ''LX'' \<and>
   replace_subtractive ''IIII'' = ''IIII'' \<and> replace_subtractive ''XXXXXX'' = ''XXXXXX'' \<and>
   replace_subtractive (replicate n c) = replicate n c \<and>
   (list_all (\<lambda>(sub, add). \<not> sublist sub s) ADDITIVE_MAP \<longrightarrow> replace_subtractive s = s) \<and>
   fold_digits ''IIIII'' = ''V'' \<and> fold_digits ''XXXXXX'' = ''LX'' \<and>
   (c \<in> set ROMAN_DIGITS \<longrightarrow> fold_digits (replicate n c) = normal (n * weight c)) \<and>
   (set t \<subseteq> set ROMAN_DIGITS \<and> descending t \<longrightarrow>
      replace_subtractive t = t \<and> fold_digits t = normal (additive_value t)) \<and>
   ((\<forall>t\<in>set ts. set t \<subseteq> set ROMAN_DIGITS \<and> descending t) \<longrightarrow>
      add ts = Inr (tidy (sum_list (map additive_value ts))))"
proof (intro conjI impI)
  have "list_all (\<lambda>e. \<not> sublist (fst e) (replicate n c)) ADDITIVE_MAP"
    by (simp add: ADDITIVE_MAP_def sublist_pair_replicate)
  then show "replace_subtractive (replicate n c) = replicate n c"
    unfolding replace_subtractive_rewrite by (rule foldl_rewrite_absent)
  show "replace_subtractive s = s"
    if "list_all (\<lambda>(sub, add). \<not> sublist sub s) ADDITIVE_MAP"
    unfolding replace_subtractive_rewrite
    using foldl_rewrite_absent [of s ADDITIVE_MAP] that by (simp add: case_prod_unfold)
  show "add [''IIII'', ''I''] = Inr ''V''" by code_simp
  show "add [''XXXXXX''] = Inr ''LX''" by code_simp
  show "replace_subtractive ''IIII'' = ''IIII''" by code_simp
  show "replace_subtractive ''XXXXXX'' = ''XXXXXX''" by code_simp
  show "fold_digits ''IIIII'' = ''V''" by code_simp
  show "fold_digits ''XXXXXX'' = ''LX''" by code_simp
  show "fold_digits (replicate n c) = normal (n * weight c)" if "c \<in> set ROMAN_DIGITS"
  proof -
    have "set (replicate n c) \<subseteq> set ROMAN_DIGITS" using that by auto
    then have "fold_digits (replicate n c) = normal (additive_value (replicate n c))"
      using descending_replicate by (rule fold_digits_descending)
    then show ?thesis by (simp add: additive_value_def sum_list_replicate)
  qed
  show "replace_subtractive t = t" if "set t \<subseteq> set ROMAN_DIGITS \<and> descending t"
    using that by (simp add: replace_subtractive_descending)
  show "fold_digits t = normal (additive_value t)"
    if "set t \<subseteq> set ROMAN_DIGITS \<and> descending t"
    using that by (simp add: fold_digits_descending)
  show "add ts = Inr (tidy (sum_list (map additive_value ts)))"
    if "\<forall>t\<in>set ts. set t \<subseteq> set ROMAN_DIGITS \<and> descending t"
    using that by (rule add_descending)
qed

theorem add_relaxed_input_witness:
  "replace_subtractive ''XXXXVIIII'' = ''XXXXVIIII'' \<and>
   fold_digits ''IIIIIIIIII'' = ''X'' \<and>
   replace_subtractive ''XXXXXXVVIIII'' = ''XXXXXXVVIIII'' \<and>
   fold_digits ''XXXXXXVVIIII'' = ''LXXIIII'' \<and>
   add [''XXXXXX'', ''VV'', ''IIII''] = Inr ''LXXIV''"
proof -
  note inst = add_relaxed_input [of 10 "CHR ''I''" "''XXXXVIIII''" "''XXXXXXVVIIII''"
      "[''XXXXXX'', ''VV'', ''IIII'']"]
  have run: "replicate (Suc 0) x = [x]" "replicate 2 x = [x, x]" "replicate 4 x = [x, x, x, x]"
    for x :: char
    by (simp_all add: numeral_eq_Suc)
  have "list_all (\<lambda>(sub, add). \<not> sublist sub ''XXXXVIIII'') ADDITIVE_MAP"
    by code_simp
  then have 1: "replace_subtractive ''XXXXVIIII'' = ''XXXXVIIII''"
    using inst by blast
  have "CHR ''I'' \<in> set ROMAN_DIGITS" by (simp add: ROMAN_DIGITS_def)
  then have "fold_digits (replicate 10 CHR ''I'') = normal (10 * weight CHR ''I'')"
    using inst by blast
  moreover have "replicate 10 CHR ''I'' = ''IIIIIIIIII''" by (simp add: numeral_eq_Suc)
  moreover have "normal (10 * weight CHR ''I'') = ''X''"
    by (simp add: normal_def additive_def run)
  ultimately have 2: "fold_digits ''IIIIIIIIII'' = ''X''" by simp
  have "set ''XXXXXXVVIIII'' \<subseteq> set ROMAN_DIGITS \<and> descending ''XXXXXXVVIIII''"
    by (simp add: ROMAN_DIGITS_def descending_def rank_simps)
  then have "replace_subtractive ''XXXXXXVVIIII'' = ''XXXXXXVVIIII'' \<and>
      fold_digits ''XXXXXXVVIIII'' = normal (additive_value ''XXXXXXVVIIII'')"
    using inst by blast
  moreover have "normal (additive_value ''XXXXXXVVIIII'') = ''LXXIIII''"
    by (simp add: additive_value_def normal_def additive_def run)
  ultimately have 3: "replace_subtractive ''XXXXXXVVIIII'' = ''XXXXXXVVIIII''"
    and 4: "fold_digits ''XXXXXXVVIIII'' = ''LXXIIII''" by simp_all
  have "\<forall>t\<in>set [''XXXXXX'', ''VV'', ''IIII'']. set t \<subseteq> set ROMAN_DIGITS \<and> descending t"
    by (simp add: ROMAN_DIGITS_def descending_def rank_simps)
  then have "add [''XXXXXX'', ''VV'', ''IIII''] =
      Inr (tidy (sum_list (map additive_value [''XXXXXX'', ''VV'', ''IIII''])))"
    using inst by blast
  moreover have "tidy (sum_list (map additive_value [''XXXXXX'', ''VV'', ''IIII''])) = ''LXXIV''"
    by (simp add: additive_value_def tidy_def tidy_digit_def run)
  ultimately have 5: "add [''XXXXXX'', ''VV'', ''IIII''] = Inr ''LXXIV''" by simp
  from 1 2 3 4 5 show ?thesis by blast
qed

text \<open>
  C5. After \<open>replace_subtractive\<close> no subtractive pair is left. This fails for some
  tokens over the seven symbols: each pattern is replaced in one pass, and the text a
  replacement writes can form a pair with what follows it. The token \<open>'XCC'\<close> becomes
  \<open>'LXXXXC'\<close>, in which \<open>'XC'\<close> occurs.
\<close>

theorem replace_subtractive_leaves_pair:
  "set ''XCC'' \<subseteq> set ROMAN_DIGITS \<and> (''XC'', ''LXXXX'') \<in> set ADDITIVE_MAP \<and>
   replace_subtractive ''XCC'' = ''LXXXXC'' \<and> sublist ''XC'' (replace_subtractive ''XCC'')"
  by code_simp

text \<open>
  C5, amended. For the tidy numeral of every number from 1 to 3999, and for every token
  over the seven symbols whose symbols stand in non-increasing order of weight (additive
  form), no subtractive pair occurs in the output of \<open>replace_subtractive\<close>.
\<close>

theorem expand_tidy_no_subtractive_pair:
  "(1 \<le> n \<and> n \<le> 3999 \<longrightarrow>
      list_all (\<lambda>(sub, add). \<not> sublist sub (replace_subtractive (tidy n))) ADDITIVE_MAP) \<and>
   (set s \<subseteq> set ROMAN_DIGITS \<and> descending s \<longrightarrow>
      list_all (\<lambda>(sub, add). \<not> sublist sub (replace_subtractive s)) ADDITIVE_MAP)"
proof (intro conjI impI)
  have "list_all (\<lambda>e. \<not> sublist (fst e) (normal n)) ADDITIVE_MAP"
    using descending_normal by (rule no_pair_in_descending)
  then show "list_all (\<lambda>(sub, add). \<not> sublist sub (replace_subtractive (tidy n))) ADDITIVE_MAP"
    by (simp add: replace_subtractive_tidy case_prod_unfold)
next
  assume "set s \<subseteq> set ROMAN_DIGITS \<and> descending s"
  then have no: "list_all (\<lambda>e. \<not> sublist (fst e) s) ADDITIVE_MAP"
    by (simp add: no_pair_in_descending)
  then have "replace_subtractive s = s"
    unfolding replace_subtractive_rewrite by (rule foldl_rewrite_absent)
  then show "list_all (\<lambda>(sub, add). \<not> sublist sub (replace_subtractive s)) ADDITIVE_MAP"
    using no by (simp add: case_prod_unfold)
qed

theorem expand_tidy_no_subtractive_pair_witness:
  "list_all (\<lambda>(sub, add). \<not> sublist sub (replace_subtractive (tidy 1994))) ADDITIVE_MAP \<and>
   list_all (\<lambda>(sub, add). \<not> sublist sub (replace_subtractive ''XXXXVIIII'')) ADDITIVE_MAP"
proof -
  have "(1::nat) \<le> 1994 \<and> (1994::nat) \<le> 3999" by simp
  moreover have "set ''XXXXVIIII'' \<subseteq> set ROMAN_DIGITS \<and> descending ''XXXXVIIII''"
    by (simp add: ROMAN_DIGITS_def descending_def rank_simps)
  ultimately show ?thesis
    using expand_tidy_no_subtractive_pair [of 1994 "''XXXXVIIII''"] by blast
qed

text \<open>
  C6. The fixpoint loop of \<open>fold_digits\<close> ends on every input: a pass leaves the
  string unchanged or makes it strictly shorter, so the loop returns after at most
  \<open>length s\<close> changing passes; what it returns is a fixpoint of the pass, and none of
  the nine patterns of \<open>REDUCTION_MAP\<close> occurs in it.
\<close>

theorem fold_digits_terminates_at_fixpoint:
  "(fold_pass s = s \<or> length (fold_pass s) < length s) \<and>
   (\<exists>k\<le>length s. fold_digits s = (fold_pass ^^ k) s) \<and>
   fold_pass (fold_digits s) = fold_digits s \<and>
   list_all (\<lambda>(digits, reduction). \<not> sublist digits (fold_digits s)) REDUCTION_MAP"
proof -
  have "fold_pass s = s \<or> length (fold_pass s) < length s"
    using fold_pass_cases [of s] by auto
  moreover have "list_all (\<lambda>e. \<not> sublist (fst e) (fold_digits s)) REDUCTION_MAP"
    using fold_pass_cases [of "fold_digits s"] fold_digits_fixed [of s] by auto
  then have "list_all (\<lambda>(digits, reduction). \<not> sublist digits (fold_digits s)) REDUCTION_MAP"
    by (simp add: case_prod_unfold)
  ultimately show ?thesis
    using fold_digits_passes [of s] fold_digits_fixed [of s] by blast
qed

text \<open>
  C7. Commutativity: for all tokens \<open>a\<close>, \<open>b\<close> over the seven symbols,
  \<open>add(a, b) == add(b, a)\<close>, and the call returns a numeral (it does not fail).
\<close>

theorem add_commutative:
  assumes "set a \<subseteq> set ROMAN_DIGITS" "set b \<subseteq> set ROMAN_DIGITS"
  shows "add [a, b] = add [b, a] \<and> (\<exists>r. add [a, b] = Inr r)"
proof -
  have "add [a, b] = Inr (tidy (sum_list (map token_value [a, b])))"
    by (rule add_tidy_sum) (use assms in simp)
  moreover have "add [b, a] = Inr (tidy (sum_list (map token_value [b, a])))"
    by (rule add_tidy_sum) (use assms in simp)
  ultimately show ?thesis by (simp add: add.commute)
qed

theorem add_commutative_witness:
  "add [''XIV'', ''MCMXC''] = add [''MCMXC'', ''XIV''] \<and> add [''XIV'', ''MCMXC''] = Inr ''MMIV''"
proof -
  have "set ''XIV'' \<subseteq> set ROMAN_DIGITS" "set ''MCMXC'' \<subseteq> set ROMAN_DIGITS"
    by (simp_all add: ROMAN_DIGITS_def)
  then have "add [''XIV'', ''MCMXC''] = add [''MCMXC'', ''XIV'']"
    using add_commutative [of "''XIV''" "''MCMXC''"] by blast
  moreover have "add [''XIV'', ''MCMXC''] = Inr ''MMIV''" by code_simp
  ultimately show ?thesis by blast
qed

text \<open>
  C8. Associativity: for all tokens \<open>a\<close>, \<open>b\<close>, \<open>c\<close> over the seven symbols, both
  inner additions return a numeral, and \<open>add(add(a,b), c)\<close> and \<open>add(a, add(b,c))\<close>
  return the same numeral, which is also \<open>add(a, b, c)\<close>. The proof needs no bound on
  the sum, so the statement covers the sums inside the supported range.
\<close>

theorem add_associative:
  assumes "set a \<subseteq> set ROMAN_DIGITS" "set b \<subseteq> set ROMAN_DIGITS" "set c \<subseteq> set ROMAN_DIGITS"
  shows "\<exists>ab bc r. add [a, b] = Inr ab \<and> add [b, c] = Inr bc \<and>
           add [ab, c] = Inr r \<and> add [a, bc] = Inr r \<and> add [a, b, c] = Inr r"
proof -
  let ?ab = "tidy (token_value a + token_value b)"
  let ?bc = "tidy (token_value b + token_value c)"
  let ?r = "tidy (token_value a + token_value b + token_value c)"
  have ab: "add [a, b] = Inr ?ab"
    using add_tidy_sum [of "[a, b]"] assms by simp
  have bc: "add [b, c] = Inr ?bc"
    using add_tidy_sum [of "[b, c]"] assms by simp
  have "add [?ab, c] = Inr ?r"
    using add_tidy_sum [of "[?ab, c]"] assms set_tidy by (simp add: token_value_tidy)
  moreover have "add [a, ?bc] = Inr ?r"
    using add_tidy_sum [of "[a, ?bc]"] assms set_tidy by (simp add: token_value_tidy add.assoc)
  moreover have "add [a, b, c] = Inr ?r"
    using add_tidy_sum [of "[a, b, c]"] assms by (simp add: add.assoc)
  ultimately show ?thesis using ab bc by blast
qed

theorem add_associative_witness:
  "add [''XLIX'', ''IV''] = Inr ''LIII'' \<and> add [''IV'', ''MCMXC''] = Inr ''MCMXCIV'' \<and>
   add [''LIII'', ''MCMXC''] = Inr ''MMXLIII'' \<and> add [''XLIX'', ''MCMXCIV''] = Inr ''MMXLIII''"
proof -
  have "set ''XLIX'' \<subseteq> set ROMAN_DIGITS" "set ''IV'' \<subseteq> set ROMAN_DIGITS"
    "set ''MCMXC'' \<subseteq> set ROMAN_DIGITS"
    by (simp_all add: ROMAN_DIGITS_def)
  then obtain ab bc r where h: "add [''XLIX'', ''IV''] = Inr ab" "add [''IV'', ''MCMXC''] = Inr bc"
      "add [ab, ''MCMXC''] = Inr r" "add [''XLIX'', bc] = Inr r"
    using add_associative [of "''XLIX''" "''IV''" "''MCMXC''"] by blast
  have v: "add [''XLIX'', ''IV''] = Inr ''LIII''" "add [''IV'', ''MCMXC''] = Inr ''MCMXCIV''"
    "add [''LIII'', ''MCMXC''] = Inr ''MMXLIII''"
    by code_simp+
  from h(1) v(1) have ab: "ab = ''LIII''" by simp
  from h(2) v(2) have bc: "bc = ''MCMXCIV''" by simp
  from h(3) v(3) ab have "r = ''MMXLIII''" by simp
  with h(4) bc have "add [''XLIX'', ''MCMXCIV''] = Inr ''MMXLIII''" by simp
  with v show ?thesis by simp
qed

text \<open>
  C9. Totality and closure: for every sequence of tokens made of the seven symbols only,
  \<open>add\<close> returns a string (no error), and the string is made of the seven symbols
  only. This includes sums above 3999: \<open>add('MMM','MMM')\<close> returns \<open>'MMMMMM'\<close>.
\<close>

theorem add_total_and_closed:
  "((\<forall>n\<in>set numbers. set n \<subseteq> set ROMAN_DIGITS) \<longrightarrow>
      (\<exists>r. add numbers = Inr r \<and> set r \<subseteq> set ROMAN_DIGITS)) \<and>
   add [''MMM'', ''MMM''] = Inr ''MMMMMM''"
proof (intro conjI impI)
  assume "\<forall>n\<in>set numbers. set n \<subseteq> set ROMAN_DIGITS"
  then have "add numbers = Inr (tidy (sum_list (map token_value numbers)))"
    by (rule add_tidy_sum)
  then show "\<exists>r. add numbers = Inr r \<and> set r \<subseteq> set ROMAN_DIGITS"
    using set_tidy by blast
next
  show "add [''MMM'', ''MMM''] = Inr ''MMMMMM''" by code_simp
qed

theorem add_total_and_closed_witness:
  "\<exists>r. add [''MMMCMXCIX'', ''IIII'', ''MDCLXVI''] = Inr r \<and> set r \<subseteq> set ROMAN_DIGITS"
proof -
  have "\<forall>n\<in>set [''MMMCMXCIX'', ''IIII'', ''MDCLXVI'']. set n \<subseteq> set ROMAN_DIGITS"
    by (simp add: ROMAN_DIGITS_def)
  then show ?thesis
    by (rule add_total_and_closed [of "[''MMMCMXCIX'', ''IIII'', ''MDCLXVI'']",
          THEN conjunct1, THEN mp])
qed

text \<open>
  C10. The empty token acts as a zero: it passes \<open>check_roman\<close>, \<open>add('')\<close> and
  \<open>add()\<close> return the empty string, and putting an empty token anywhere into the
  argument list does not change what \<open>add\<close> returns.
\<close>

theorem add_empty_token:
  "check_roman [] = Inr () \<and> add [[]] = Inr [] \<and> add [] = Inr [] \<and>
   add (xs @ [] # ys) = add (xs @ ys)"
proof (intro conjI)
  show "add (xs @ [] # ys) = add (xs @ ys)"
    by (cases "check_all (xs @ ys)")
      (simp_all add: add_def check_all_empty_token replace_subtractive_empty)
  show "check_roman [] = Inr ()" by code_simp
  show "add [[]] = Inr []" by code_simp
  show "add [] = Inr []" by code_simp
qed

end
